theory Spec2Isabelle
  imports Main
begin

section \<open>Backoff executor: retryWithBackoff (src/api.ts)\<close>

text \<open>
  \<^verbatim>\<open>
  export async function retryWithBackoff<T>(fn, retries = 3, delay = 1000, onRetry?) {
      let attempt = 1;
      while (attempt <= retries) {
          try {
              return await fn();
          } catch (error) {
              if (attempt === retries) { throw error; }
              if (onRetry) { onRetry(attempt, error, delay); }
              await new Promise(resolve => setTimeout(resolve, delay));
              delay *= 2;
              attempt++;
          }
      }
      throw new Error("Max retries reached");
  }
  \<close>

  The operation \<open>fn\<close> is a closure that may answer differently each time it is invoked.
  It is modelled by the outcome of its invocations in order: \<open>fn k\<close> is what the
  invocation number \<open>k\<close> (counted from 0) produces, \<open>Inr v\<close> when the promise fulfils
  with \<open>v\<close> and \<open>Inl e\<close> when it rejects with \<open>e\<close>.

  The function either returns a value of the operation, or rethrows the error \<open>e\<close> the
  operation threw, as it is (\<open>Thrown e\<close>: the \<open>throw error\<close> of the \<open>catch\<close> block), or is
  left by an error \<open>x\<close> that the observer threw (\<open>ObserverThrew x\<close>: the call of \<open>onRetry\<close>
  stands in the \<open>catch\<close> block with no \<open>try\<close> around it), or throws its own
  \<open>Error("Max retries reached")\<close>. In each case the promise of the call rejects with the
  error itself; the constructor only tells where it came from.
\<close>

datatype 'e failure = Thrown 'e | ObserverThrew 'e | MaxRetriesReached

text \<open>
  What the function does to the outside world, in order: it invokes the operation, it
  calls the observer \<open>onRetry(attempt, error, delay)\<close>, it waits \<open>delay\<close> milliseconds on
  a timer.
\<close>

datatype 'e retry_event = Call nat | OnRetry int 'e int | Sleep int

text \<open>
  The local variables of the function (\<open>attempt\<close>, \<open>delay\<close>), the number of invocations of
  the operation so far and the events so far. \<open>retries\<close> and \<open>delay\<close> are JavaScript
  numbers holding integers; doubling is exact on them, so they are integers here.
\<close>

record 'e retry_state =
  attempt :: int
  delay :: int
  calls :: nat
  trace :: "'e retry_event list"

text \<open>
  The observer is optional (\<open>None\<close> when the caller passes none). Called with the attempt
  number, the error and the delay, it either returns (\<open>None\<close>) or throws an error
  (\<open>Some x\<close>). The attempt number differs at every call, so an observer with a state of
  its own is covered too.
\<close>

type_synonym 'e observer = "int \<Rightarrow> 'e \<Rightarrow> int \<Rightarrow> 'e option"

text \<open>
  \<open>if (onRetry) { onRetry(attempt, error, delay); }\<close>: the call that is made, if any, and
  the error that comes out of it, if any.
\<close>

definition observer_events ::
  "'e observer option \<Rightarrow> int \<Rightarrow> 'e \<Rightarrow> int \<Rightarrow> 'e retry_event list" where
  "observer_events onRetry a error d =
     (case onRetry of None \<Rightarrow> [] | Some obs \<Rightarrow> [OnRetry a error d])"

definition observer_throws :: "'e observer option \<Rightarrow> int \<Rightarrow> 'e \<Rightarrow> int \<Rightarrow> 'e option" where
  "observer_throws onRetry a error d =
     (case onRetry of None \<Rightarrow> None | Some obs \<Rightarrow> obs a error d)"

text \<open>
  The \<open>while (attempt <= retries)\<close> loop. An operation that throws before returning a
  promise is caught by the same \<open>catch\<close> as one whose promise rejects. An error thrown by
  the observer leaves the function at once: the timer is not set and the operation is not
  invoked again. The function is modelled with \<open>retries\<close> and \<open>delay\<close> given (a caller that
  leaves them out gets 3 and 1000).
\<close>

function retry_loop ::
  "(nat \<Rightarrow> 'e + 'a) \<Rightarrow> int \<Rightarrow> 'e observer option \<Rightarrow> 'e retry_state
     \<Rightarrow> ('e failure + 'a) \<times> 'e retry_state"
where
  "retry_loop fn retries onRetry s =
     (if attempt s \<le> retries then
        (case fn (calls s) of
           Inr v \<Rightarrow>
             (Inr v, s\<lparr>calls := Suc (calls s), trace := trace s @ [Call (calls s)]\<rparr>)
         | Inl error \<Rightarrow>
             if attempt s = retries then
               (Inl (Thrown error),
                s\<lparr>calls := Suc (calls s), trace := trace s @ [Call (calls s)]\<rparr>)
             else
               (case observer_throws onRetry (attempt s) error (delay s) of
                  Some x \<Rightarrow>
                    (Inl (ObserverThrew x),
                     s\<lparr>calls := Suc (calls s),
                        trace := trace s @ [Call (calls s)]
                           @ observer_events onRetry (attempt s) error (delay s)\<rparr>)
                | None \<Rightarrow>
                    retry_loop fn retries onRetry
                      (s\<lparr>calls := Suc (calls s),
                         trace := trace s @ [Call (calls s)]
                            @ observer_events onRetry (attempt s) error (delay s)
                            @ [Sleep (delay s)],
                         delay := delay s * 2,
                         attempt := attempt s + 1\<rparr>)))
      else (Inl MaxRetriesReached, s))"
  by pat_completeness auto
termination
  by (relation "measure (\<lambda>(fn, retries, onRetry, s). nat (retries + 1 - attempt s))") auto

definition retryWithBackoff ::
  "(nat \<Rightarrow> 'e + 'a) \<Rightarrow> int \<Rightarrow> int \<Rightarrow> 'e observer option
     \<Rightarrow> ('e failure + 'a) \<times> 'e retry_state"
where
  "retryWithBackoff fn retries delay0 onRetry =
     retry_loop fn retries onRetry \<lparr>attempt = 1, delay = delay0, calls = 0, trace = []\<rparr>"

text \<open>The delays handed to the observer, in order.\<close>

fun onRetry_delays :: "'e retry_event list \<Rightarrow> int list" where
  "onRetry_delays [] = []"
| "onRetry_delays (OnRetry a e d # es) = d # onRetry_delays es"
| "onRetry_delays (_ # es) = onRetry_delays es"

section \<open>Concurrency-limited batch runner: runWithConcurrency\<close>

text \<open>
  \<^verbatim>\<open>
  async function runWithConcurrency(tasks, limit) {
      const executing = new Set();
      for (const task of tasks) {
          const promise = task().finally(() => { executing.delete(promise); });
          executing.add(promise);
          if (executing.size >= limit) { await Promise.race(executing); }
      }
      await Promise.all(Array.from(executing));
  }
  \<close>

  There is one thread of control. The body of the runner runs without interruption from
  one \<open>await\<close> to the next; while it is suspended the environment settles the promises of
  the jobs, in any order and at any time, and the callbacks run.

  A task is an asynchronous function, as at every call site: invoking it returns a pending
  promise, which the environment settles later, fulfilled or rejected with an error. The
  runner never looks at the value of a fulfilled task, so a task is modelled by the way its
  promise settles, and the batch by the list of these; the promise made in the iteration
  number \<open>i\<close> of the \<open>for\<close> loop (counted from 0) is named \<open>i\<close>. A task whose promise never
  settles is a job that stays in flight: no schedule is required to settle every job.
\<close>

datatype 'e settled = Fulfilled | Rejected 'e

text \<open>
  What an outside observer sees of the jobs: job \<open>i\<close> was invoked, job \<open>i\<close> completed
  with the given outcome. A job counts as completed when its \<open>finally\<close> callback runs,
  which is when the runner learns of it and not before the promise of the task has
  settled: a job is in flight here at least as long as it really is.
\<close>

datatype 'e job_event = Started nat | Finished nat "'e settled"

text \<open>
  Where the body of the runner stands: running its synchronous code, suspended at
  \<open>await Promise.race(executing)\<close> on the promises the set held at the call, woken up by
  the first of them to settle but not yet resumed, suspended at
  \<open>await Promise.all(Array.from(executing))\<close> on the promises still pending, or returned
  with its own promise settled.
\<close>

datatype 'e control =
    Running
  | AwaitRace "nat list"
  | RaceSettled "'e settled"
  | AwaitAll "nat list"
  | Done "'e settled"

record 'e runner =
  todo :: "nat list"
  executing :: "nat list"
  log :: "'e job_event list"
  ctl :: "'e control"

text \<open>
  The JavaScript \<open>Set\<close> keeps its members in insertion order without duplicates.
\<close>

definition set_add :: "nat \<Rightarrow> nat list \<Rightarrow> nat list" where
  "set_add x xs = (if x \<in> set xs then xs else xs @ [x])"

definition set_delete :: "nat \<Rightarrow> nat list \<Rightarrow> nat list" where
  "set_delete x xs = removeAll x xs"

text \<open>
  \<open>Promise.all\<close> of no promise is fulfilled at once; otherwise the runner waits.
\<close>

definition await_all :: "nat list \<Rightarrow> 'e control" where
  "await_all S = (if S = [] then Done Fulfilled else AwaitAll S)"

text \<open>
  The synchronous part of the body, from the head of the \<open>for\<close> loop with the tasks
  \<open>ts\<close> left to iterate over, up to the next \<open>await\<close> that suspends: each task is invoked
  and its promise added to the set; when the set has reached the limit the runner
  suspends on the race of its members; after the last task it waits for all members.
\<close>

fun admit :: "int \<Rightarrow> nat list \<Rightarrow> 'e runner \<Rightarrow> 'e runner" where
  "admit limit [] s = s\<lparr>todo := [], ctl := await_all (executing s)\<rparr>"
| "admit limit (i # rest) s =
     (let s1 = s\<lparr>todo := rest,
                 executing := set_add i (executing s),
                 log := log s @ [Started i]\<rparr>
      in if limit \<le> int (length (executing s1))
         then s1\<lparr>ctl := AwaitRace (executing s1)\<rparr>
         else admit limit rest s1)"

text \<open>The call itself: it runs the body up to its first suspension.\<close>

definition runWithConcurrency :: "'e settled list \<Rightarrow> int \<Rightarrow> 'e runner" where
  "runWithConcurrency tasks limit =
     admit limit [0 ..< length tasks]
       \<lparr>todo = [0 ..< length tasks], executing = [], log = [], ctl = Running\<rparr>"

text \<open>
  The jobs invoked, the jobs completed, and the jobs started and not yet completed, read
  off the log of observations (not off the runner's own set).
\<close>

fun started :: "'e job_event list \<Rightarrow> nat list" where
  "started [] = []"
| "started (Started i # l) = i # started l"
| "started (Finished i w # l) = started l"

fun finished :: "'e job_event list \<Rightarrow> nat list" where
  "finished [] = []"
| "finished (Started i # l) = finished l"
| "finished (Finished i w # l) = i # finished l"

definition in_flight :: "'e job_event list \<Rightarrow> nat list" where
  "in_flight l = filter (\<lambda>i. i \<notin> set (finished l)) (started l)"

text \<open>
  How the settling of promise \<open>i\<close> with outcome \<open>w\<close> acts on a suspended runner. The race
  settles as its first member to settle does; \<open>Promise.all\<close> rejects with the first
  rejection among its members and is fulfilled when the last of them is.
\<close>

fun on_settle :: "nat \<Rightarrow> 'e settled \<Rightarrow> 'e control \<Rightarrow> 'e control" where
  "on_settle i w Running = Running"
| "on_settle i w (AwaitRace S) = (if i \<in> set S then RaceSettled w else AwaitRace S)"
| "on_settle i w (RaceSettled u) = RaceSettled u"
| "on_settle i Fulfilled (AwaitAll S) = await_all (removeAll i S)"
| "on_settle i (Rejected e) (AwaitAll S) =
     (if i \<in> set S then Done (Rejected e) else AwaitAll S)"
| "on_settle i w (Done u) = Done u"

text \<open>
  The two things that can happen while the runner is suspended. The environment settles
  the promise of a job in flight: the \<open>finally\<close> callback deletes the promise from the
  set, then the promise derived by \<open>finally\<close> settles the same way. Or the runner, woken
  up by a race, resumes: a rejected race makes the \<open>await\<close> throw, which rejects the
  promise of the runner, there being no \<open>try\<close> around it; a fulfilled one goes on with the
  loop. The resumption is an event of its own, since it is queued behind the callbacks of
  the jobs that settle in the meantime: other jobs may complete between the first
  completion of a race and the resumption of the runner.
\<close>

datatype event = Settle nat | Resume

definition settle :: "'e settled list \<Rightarrow> nat \<Rightarrow> 'e runner \<Rightarrow> 'e runner option" where
  "settle tasks i s =
     (if i \<in> set (in_flight (log s)) \<and> i < length tasks then
        Some (s\<lparr>executing := set_delete i (executing s),
                log := log s @ [Finished i (tasks ! i)],
                ctl := on_settle i (tasks ! i) (ctl s)\<rparr>)
      else None)"

definition resume :: "int \<Rightarrow> 'e runner \<Rightarrow> 'e runner option" where
  "resume limit s =
     (case ctl s of
        RaceSettled Fulfilled \<Rightarrow> Some (admit limit (todo s) s)
      | RaceSettled (Rejected e) \<Rightarrow> Some (s\<lparr>ctl := Done (Rejected e)\<rparr>)
      | _ \<Rightarrow> None)"

fun step :: "'e settled list \<Rightarrow> int \<Rightarrow> 'e runner \<Rightarrow> event \<Rightarrow> 'e runner option" where
  "step tasks limit s (Settle i) = settle tasks i s"
| "step tasks limit s Resume = resume limit s"

text \<open>
  A run from a state along a schedule, the list of what happens in order; \<open>None\<close> when the
  schedule asks for something that cannot happen there.
\<close>

fun run_from :: "'e settled list \<Rightarrow> int \<Rightarrow> 'e runner \<Rightarrow> event list \<Rightarrow> 'e runner option" where
  "run_from tasks limit s [] = Some s"
| "run_from tasks limit s (ev # evs) =
     (case step tasks limit s ev of
        None \<Rightarrow> None
      | Some s' \<Rightarrow> run_from tasks limit s' evs)"

definition exec :: "'e settled list \<Rightarrow> int \<Rightarrow> event list \<Rightarrow> 'e runner option" where
  "exec tasks limit evs = run_from tasks limit (runWithConcurrency tasks limit) evs"

text \<open>
  What can happen next in a state, and the states where nothing can: no job is in flight
  and the runner is not about to resume.
\<close>

definition enabled :: "'e runner \<Rightarrow> event list" where
  "enabled s =
     (case ctl s of RaceSettled w \<Rightarrow> [Resume] | _ \<Rightarrow> []) @ map Settle (in_flight (log s))"

definition quiescent :: "'e runner \<Rightarrow> bool" where
  "quiescent s = (enabled s = [])"

subsection \<open>Invariants of the runner\<close>

text \<open>
  The log and the runner's variables agree: the jobs started so far followed by the tasks
  left are the batch in submission order, a job completes once and only after it started,
  the set \<open>executing\<close> holds the jobs in flight, and a job completes with its own outcome.
\<close>

definition log_ok :: "'e settled list \<Rightarrow> nat list \<Rightarrow> 'e runner \<Rightarrow> bool" where
  "log_ok tasks ts s \<longleftrightarrow>
      started (log s) @ ts = [0 ..< length tasks]
    \<and> distinct (finished (log s))
    \<and> set (finished (log s)) \<subseteq> set (started (log s))
    \<and> executing s = in_flight (log s)
    \<and> (\<forall>i w. Finished i w \<in> set (log s) \<longrightarrow> i < length tasks \<and> w = tasks ! i)"

text \<open>
  Admission: whenever a job is started, the jobs before it have been started in order and
  the jobs in flight leave a free slot.
\<close>

definition adm_ok :: "int \<Rightarrow> 'e job_event list \<Rightarrow> bool" where
  "adm_ok limit l \<longleftrightarrow>
     (\<forall>p j r. l = p @ Started j # r \<longrightarrow>
        started p = [0 ..< j] \<and> int (length (in_flight p)) < max 1 limit)"

text \<open>What each control point of the runner guarantees.\<close>

definition ctl_ok :: "int \<Rightarrow> 'e runner \<Rightarrow> bool" where
  "ctl_ok limit s \<longleftrightarrow>
     (case ctl s of
        Running \<Rightarrow> False
      | AwaitRace S \<Rightarrow> S = executing s \<and> S \<noteq> [] \<and> int (length S) \<le> max 1 limit
      | RaceSettled w \<Rightarrow>
          int (length (executing s)) < max 1 limit
          \<and> (\<forall>e. w = Rejected e \<longrightarrow> (\<exists>i. Finished i (Rejected e) \<in> set (log s)))
      | AwaitAll S \<Rightarrow>
          S = executing s \<and> S \<noteq> [] \<and> todo s = [] \<and> int (length S) < max 1 limit
      | Done w \<Rightarrow>
          int (length (executing s)) \<le> max 1 limit
          \<and> (case w of
                Fulfilled \<Rightarrow> todo s = [] \<and> executing s = []
              | Rejected e \<Rightarrow> (\<exists>i. Finished i (Rejected e) \<in> set (log s))))"

definition runner_inv :: "'e settled list \<Rightarrow> int \<Rightarrow> 'e runner \<Rightarrow> bool" where
  "runner_inv tasks limit s \<longleftrightarrow> log_ok tasks (todo s) s \<and> adm_ok limit (log s) \<and> ctl_ok limit s"

text \<open>
  A bound on what can still happen: two for every task not yet completed (its completion
  and the resumption it may cause), one more when the runner is about to resume.
\<close>

definition potential :: "'e runner \<Rightarrow> nat" where
  "potential s =
     2 * (length (todo s) + length (in_flight (log s)))
     + (case ctl s of RaceSettled w \<Rightarrow> 1 | _ \<Rightarrow> 0)"

section \<open>Properties of the backoff executor\<close>

declare retry_loop.simps [simp del]

lemma onRetry_delays_append:
  "onRetry_delays (xs @ ys) = onRetry_delays xs @ onRetry_delays ys"
  by (induction xs rule: onRetry_delays.induct) simp_all

lemma onRetry_delays_observer_events:
  "length (onRetry_delays (observer_events onRetry a e d)) = (if onRetry = None then 0 else 1)"
  by (cases onRetry) (simp_all add: observer_events_def)

lemma retry_loop_success:
  assumes "\<forall>j<k. \<exists>e. fn (calls s + j) = Inl e"
    and "fn (calls s + k) = Inr v"
    and "attempt s + int k \<le> retries"
    and "\<forall>j<k. \<forall>e. observer_throws onRetry (attempt s + int j) e (delay s * 2 ^ j) = None"
  shows "fst (retry_loop fn retries onRetry s) = Inr v
       \<and> calls (snd (retry_loop fn retries onRetry s)) = Suc (calls s + k)
       \<and> length (onRetry_delays (trace (snd (retry_loop fn retries onRetry s))))
           = length (onRetry_delays (trace s)) + (if onRetry = None then 0 else k)
       \<and> trace (snd (retry_loop fn retries onRetry s)) \<noteq> []
       \<and> last (trace (snd (retry_loop fn retries onRetry s))) = Call (calls s + k)"
  using assms
proof (induction k arbitrary: s)
  case 0
  then show ?case
    by (simp add: retry_loop.simps [of fn retries onRetry s] onRetry_delays_append)
next
  case (Suc k)
  from Suc.prems(1) obtain e where e: "fn (calls s) = Inl e"
    by (metis add.right_neutral zero_less_Suc)
  let ?s = "s\<lparr>calls := Suc (calls s),
                trace := trace s @ [Call (calls s)]
                   @ observer_events onRetry (attempt s) e (delay s)
                   @ [Sleep (delay s)],
                delay := delay s * 2,
                attempt := attempt s + 1\<rparr>"
  from Suc.prems(3) have lt: "attempt s \<le> retries" "attempt s \<noteq> retries"
    by simp_all
  from Suc.prems(4) have "observer_throws onRetry (attempt s + int 0) e (delay s * 2 ^ 0) = None"
    by blast
  then have nt: "observer_throws onRetry (attempt s) e (delay s) = None" by simp
  have unfold: "retry_loop fn retries onRetry s = retry_loop fn retries onRetry ?s"
    using e lt nt by (simp add: retry_loop.simps [of fn retries onRetry s])
  have a: "\<forall>j<k. \<exists>e. fn (calls ?s + j) = Inl e"
  proof (intro allI impI)
    fix j assume "j < k"
    then have "Suc j < Suc k" by simp
    with Suc.prems(1) obtain e' where "fn (calls s + Suc j) = Inl e'" by blast
    then show "\<exists>e. fn (calls ?s + j) = Inl e" by simp
  qed
  have b: "fn (calls ?s + k) = Inr v"
    using Suc.prems(2) by simp
  have c: "attempt ?s + int k \<le> retries"
    using Suc.prems(3) by simp
  have d: "\<forall>j<k. \<forall>e. observer_throws onRetry (attempt ?s + int j) e (delay ?s * 2 ^ j) = None"
  proof (intro allI impI)
    fix j e' assume "j < k"
    then have "Suc j < Suc k" by simp
    with Suc.prems(4)
    have "observer_throws onRetry (attempt s + int (Suc j)) e' (delay s * 2 ^ Suc j) = None"
      by blast
    then show "observer_throws onRetry (attempt ?s + int j) e' (delay ?s * 2 ^ j) = None"
      by (simp add: algebra_simps)
  qed
  show ?case
    using Suc.IH [OF a b c d] unfolding unfold
    by (simp add: onRetry_delays_append onRetry_delays_observer_events)
qed

lemma retry_loop_last_call:
  "attempt s \<le> retries \<Longrightarrow>
     calls s < calls (snd (retry_loop fn retries onRetry s))
   \<and> (case fst (retry_loop fn retries onRetry s) of
        Inr v \<Rightarrow> fn (calls (snd (retry_loop fn retries onRetry s)) - 1) = Inr v
      | Inl (Thrown e) \<Rightarrow> fn (calls (snd (retry_loop fn retries onRetry s)) - 1) = Inl e
      | Inl (ObserverThrew x) \<Rightarrow>
          (\<exists>obs a e d. onRetry = Some obs
             \<and> fn (calls (snd (retry_loop fn retries onRetry s)) - 1) = Inl e
             \<and> obs a e d = Some x)
      | Inl MaxRetriesReached \<Rightarrow> False)"
proof (induction fn retries onRetry s rule: retry_loop.induct)
  case (1 fn retries onRetry s)
  show ?case
  proof (cases "fn (calls s)")
    case (Inr v)
    with 1 show ?thesis by (simp add: retry_loop.simps [of fn retries onRetry s])
  next
    case (Inl e)
    show ?thesis
    proof (cases "attempt s = retries")
      case True
      with 1 Inl show ?thesis by (simp add: retry_loop.simps [of fn retries onRetry s])
    next
      case False
      show ?thesis
      proof (cases "observer_throws onRetry (attempt s) e (delay s)")
        case (Some x)
        then obtain obs where obs: "onRetry = Some obs" "obs (attempt s) e (delay s) = Some x"
          by (cases onRetry) (simp_all add: observer_throws_def)
        have eq: "retry_loop fn retries onRetry s =
            (Inl (ObserverThrew x),
             s\<lparr>calls := Suc (calls s),
                trace := trace s @ [Call (calls s)]
                   @ observer_events onRetry (attempt s) e (delay s)\<rparr>)"
          using "1.prems" Inl False Some
          by (simp add: retry_loop.simps [of fn retries onRetry s])
        from obs Inl have "\<exists>obs a e' d. onRetry = Some obs \<and> fn (calls s) = Inl e' \<and> obs a e' d = Some x"
          by blast
        then show ?thesis unfolding eq by simp
      next
        case None
        let ?s' = "s\<lparr>calls := Suc (calls s),
                      trace := trace s @ [Call (calls s)]
                         @ observer_events onRetry (attempt s) e (delay s)
                         @ [Sleep (delay s)],
                      delay := delay s * 2,
                      attempt := attempt s + 1\<rparr>"
        have eq: "retry_loop fn retries onRetry s = retry_loop fn retries onRetry ?s'"
          using "1.prems" Inl False None
          by (simp add: retry_loop.simps [of fn retries onRetry s])
        from False "1.prems" have le: "attempt ?s' \<le> retries" by simp
        note ih = "1.IH" [OF "1.prems" Inl False None le]
        from ih [THEN conjunct1] have a: "calls s < calls (snd (retry_loop fn retries onRetry ?s'))"
          by simp
        show ?thesis unfolding eq
          by (rule conjI [OF a ih [THEN conjunct2]])
      qed
    qed
  qed
qed

lemma retry_loop_quiet_observer:
  "attempt s \<le> retries \<Longrightarrow> \<forall>a e d. observer_throws onRetry a e d = None \<Longrightarrow>
     fst (retry_loop fn retries onRetry s)
       = (case fn (calls (snd (retry_loop fn retries onRetry s)) - 1) of
            Inr v \<Rightarrow> Inr v | Inl e \<Rightarrow> Inl (Thrown e))"
proof (induction fn retries onRetry s rule: retry_loop.induct)
  case (1 fn retries onRetry s)
  show ?case
  proof (cases "fn (calls s)")
    case (Inr v)
    with 1 show ?thesis by (simp add: retry_loop.simps [of fn retries onRetry s])
  next
    case (Inl e)
    show ?thesis
    proof (cases "attempt s = retries")
      case True
      with 1 Inl show ?thesis by (simp add: retry_loop.simps [of fn retries onRetry s])
    next
      case False
      from "1.prems"(2) have None: "observer_throws onRetry (attempt s) e (delay s) = None"
        by blast
      from False "1.prems" have "attempt s + 1 \<le> retries" by simp
      with "1.IH" [OF "1.prems"(1) Inl False None] False Inl "1.prems" None show ?thesis
        by (simp add: retry_loop.simps [of fn retries onRetry s])
    qed
  qed
qed

subsection \<open>What the specification says of the backoff executor\<close>

text \<open>
  C5: an operation that fails on every attempt, run with \<open>retries = 3\<close> and
  \<open>delay = 100\<close> and an observer that returns from its two calls, is invoked exactly 3
  times, the observer is called exactly twice, with the delays 100 then 200, and the
  result is the error of the third invocation, as the operation threw it.
\<close>

theorem retryWithBackoff_always_failing:
  assumes "obs 1 (err 0) 100 = None" and "obs 2 (err 1) 200 = None"
  shows "retryWithBackoff (\<lambda>k. Inl (err k)) 3 100 (Some obs) =
     (Inl (Thrown (err 2)),
      \<lparr>attempt = 3, delay = 400, calls = 3,
       trace = [Call 0, OnRetry 1 (err 0) 100, Sleep 100,
                Call 1, OnRetry 2 (err 1) 200, Sleep 200,
                Call 2]\<rparr>)
   \<and> onRetry_delays (trace (snd (retryWithBackoff (\<lambda>k. Inl (err k)) 3 100 (Some obs))))
       = [100, 200]"
  using assms
  by (simp add: retryWithBackoff_def retry_loop.simps numeral_2_eq_2
        observer_throws_def observer_events_def)

theorem retryWithBackoff_always_failing_witness:
  "fst (retryWithBackoff (\<lambda>k. Inl (10 + k) :: nat + int) 3 100 (Some (\<lambda>a e d. None)))
     = Inl (Thrown 12)
   \<and> calls (snd (retryWithBackoff (\<lambda>k. Inl (10 + k) :: nat + int) 3 100
        (Some (\<lambda>a e d. None)))) = 3"
  by (simp add: retryWithBackoff_always_failing)

text \<open>
  C6: when the invocations before number \<open>k\<close> fail and invocation \<open>k\<close> succeeds within
  the allowed attempts, and the observer returns from the calls made to it, the result is
  the value of that invocation, the operation has been invoked \<open>k + 1\<close> times and no more
  (the successful invocation is the last event), and the observer has been called \<open>k\<close>
  times. With \<open>retries = 3\<close>, \<open>delay = 100\<close> and \<open>k = 1\<close>: two invocations, one call of
  the observer, the value of the second attempt.
\<close>

theorem retryWithBackoff_success_stops:
  assumes "\<forall>j<k. \<exists>e. fn j = Inl e" and "fn k = Inr v" and "int k < retries"
    and "\<forall>j<k. \<forall>e. obs (1 + int j) e (d * 2 ^ j) = None"
  shows "fst (retryWithBackoff fn retries d (Some obs)) = Inr v
       \<and> calls (snd (retryWithBackoff fn retries d (Some obs))) = Suc k
       \<and> length (onRetry_delays (trace (snd (retryWithBackoff fn retries d (Some obs))))) = k
       \<and> last (trace (snd (retryWithBackoff fn retries d (Some obs)))) = Call k"
  using retry_loop_success
    [of k fn "\<lparr>attempt = 1, delay = d, calls = 0, trace = []\<rparr>" v retries "Some obs"]
    assms
  by (simp add: retryWithBackoff_def observer_throws_def)

theorem retryWithBackoff_success_stops_witness:
  "fst (retryWithBackoff (\<lambda>k. if k = 0 then Inl ''busy'' else Inr (42::int)) 3 100
          (Some (\<lambda>a e d. None))) = Inr 42
   \<and> calls (snd (retryWithBackoff (\<lambda>k. if k = 0 then Inl ''busy'' else Inr (42::int)) 3 100
          (Some (\<lambda>a e d. None)))) = 2
   \<and> length (onRetry_delays (trace (snd
        (retryWithBackoff (\<lambda>k. if k = 0 then Inl ''busy'' else Inr (42::int)) 3 100
          (Some (\<lambda>a e d. None)))))) = 1"
  using retryWithBackoff_success_stops
    [of 1 "\<lambda>k. if k = 0 then Inl ''busy'' else Inr (42::int)" 42 3 "\<lambda>a e d. None" 100]
  by simp

text \<open>
  C8, as the code has it: with \<open>retries \<ge> 1\<close> the final
  \<open>throw new Error("Max retries reached")\<close> is never reached and the operation is invoked
  at least once. The call resolves with the value of the last invocation of the operation,
  or rejects with the error the last invocation threw, or rejects with an error thrown by
  the observer \<open>onRetry\<close>, which is called inside the \<open>catch\<close> block with nothing around
  it. With no observer, or one that always returns, only the first two happen: the result
  is what the last invocation of the operation produced.
\<close>

theorem retryWithBackoff_fallback_unreachable:
  assumes "1 \<le> retries"
  shows "fst (retryWithBackoff fn retries d onRetry) \<noteq> Inl MaxRetriesReached
       \<and> 0 < calls (snd (retryWithBackoff fn retries d onRetry))
       \<and> (case fst (retryWithBackoff fn retries d onRetry) of
            Inr v \<Rightarrow> fn (calls (snd (retryWithBackoff fn retries d onRetry)) - 1) = Inr v
          | Inl (Thrown e) \<Rightarrow>
              fn (calls (snd (retryWithBackoff fn retries d onRetry)) - 1) = Inl e
          | Inl (ObserverThrew x) \<Rightarrow>
              (\<exists>obs a e d'. onRetry = Some obs
                 \<and> fn (calls (snd (retryWithBackoff fn retries d onRetry)) - 1) = Inl e
                 \<and> obs a e d' = Some x)
          | Inl MaxRetriesReached \<Rightarrow> False)
       \<and> ((\<forall>a e d'. observer_throws onRetry a e d' = None)
            \<longrightarrow> fst (retryWithBackoff fn retries d onRetry)
                = (case fn (calls (snd (retryWithBackoff fn retries d onRetry)) - 1) of
                     Inr v \<Rightarrow> Inr v | Inl e \<Rightarrow> Inl (Thrown e)))"
proof -
  let ?s = "\<lparr>attempt = 1, delay = d, calls = 0, trace = []\<rparr> :: 'a retry_state"
  from assms have le: "attempt ?s \<le> retries" by simp
  note l = retry_loop_last_call [OF le, of fn onRetry, folded retryWithBackoff_def]
  from l have a: "fst (retryWithBackoff fn retries d onRetry) \<noteq> Inl MaxRetriesReached"
    by (auto split: sum.splits failure.splits)
  from l have b: "0 < calls (snd (retryWithBackoff fn retries d onRetry))"
    by simp
  have c: "(\<forall>a e d'. observer_throws onRetry a e d' = None)
            \<longrightarrow> fst (retryWithBackoff fn retries d onRetry)
                = (case fn (calls (snd (retryWithBackoff fn retries d onRetry)) - 1) of
                     Inr v \<Rightarrow> Inr v | Inl e \<Rightarrow> Inl (Thrown e))"
    using retry_loop_quiet_observer [OF le, of onRetry fn, folded retryWithBackoff_def]
    by blast
  show ?thesis by (intro conjI a b l [THEN conjunct2] c)
qed

theorem retryWithBackoff_fallback_unreachable_witness:
  "(1::int) \<le> 2
   \<and> fst (retryWithBackoff (\<lambda>k. Inl ''down'' :: string + int) 2 1000 None)
       = Inl (Thrown ''down'')
   \<and> fst (retryWithBackoff (\<lambda>k. Inl ''down'' :: string + int) 2 1000
        (Some (\<lambda>a e d. Some ''observer-boom''))) \<noteq> Inl MaxRetriesReached"
proof -
  let ?fn = "\<lambda>k. Inl ''down'' :: string + int"
  have h: "(1::int) \<le> 2" by simp
  have q: "\<forall>a e d'. observer_throws (None :: string observer option) a e d' = None"
    by (simp add: observer_throws_def)
  note t = retryWithBackoff_fallback_unreachable [OF h]
  from t [of ?fn 1000 None, THEN conjunct2, THEN conjunct2, THEN conjunct2, THEN mp, OF q]
  have a: "fst (retryWithBackoff ?fn 2 1000 None) = Inl (Thrown ''down'')"
    by simp
  note b = t [of ?fn 1000 "Some (\<lambda>a e d. Some ''observer-boom'')", THEN conjunct1]
  show ?thesis by (intro conjI h a b)
qed

text \<open>
  An observer that throws: the operation fails once, the observer is called and throws,
  and the call rejects with the error of the observer, which is neither a value nor an
  error of the operation. The operation has been invoked once and no timer was set.
\<close>

theorem retryWithBackoff_fallback_unreachable_counterexample:
  "retryWithBackoff (\<lambda>k. Inl ''down'' :: string + int) 2 1000
      (Some (\<lambda>a e d. Some ''observer-boom'')) =
     (Inl (ObserverThrew ''observer-boom''),
      \<lparr>attempt = 1, delay = 1000, calls = 1, trace = [Call 0, OnRetry 1 ''down'' 1000]\<rparr>)"
  by (simp add: retryWithBackoff_def retry_loop.simps observer_throws_def observer_events_def)

text \<open>
  C9: with \<open>retries \<le> 0\<close> the loop body never runs: the operation is not invoked, the
  observer is not called, no timer is set, and the result is the error
  \<open>"Max retries reached"\<close>.
\<close>

theorem retryWithBackoff_no_attempt:
  assumes "retries \<le> 0"
  shows "retryWithBackoff fn retries d onRetry =
           (Inl MaxRetriesReached, \<lparr>attempt = 1, delay = d, calls = 0, trace = []\<rparr>)"
  using assms by (simp add: retryWithBackoff_def retry_loop.simps)

theorem retryWithBackoff_no_attempt_witness:
  "(0::int) \<le> 0
   \<and> retryWithBackoff (\<lambda>k. Inr (7::int) :: string + int) 0 1000
        (Some (\<lambda>a e d. Some ''observer-boom'')) =
       (Inl MaxRetriesReached, \<lparr>attempt = 1, delay = 1000, calls = 0, trace = []\<rparr>)"
proof -
  have h: "(0::int) \<le> 0" by simp
  from retryWithBackoff_no_attempt [OF h] show ?thesis by simp
qed

section \<open>Properties of the batch runner\<close>

lemma started_append: "started (l @ l') = started l @ started l'"
  by (induction l rule: started.induct) simp_all

lemma finished_append: "finished (l @ l') = finished l @ finished l'"
  by (induction l rule: finished.induct) simp_all

lemma in_flight_subset: "set (in_flight l) \<subseteq> set (started l)"
  by (auto simp: in_flight_def)

lemma in_flight_Started:
  "i \<notin> set (finished l) \<Longrightarrow> in_flight (l @ [Started i]) = in_flight l @ [i]"
  by (simp add: in_flight_def started_append finished_append)

lemma in_flight_Finished:
  "in_flight (l @ [Finished i w]) = removeAll i (in_flight l)"
  by (induction "started l") (auto simp: in_flight_def started_append finished_append removeAll_filter_not_eq intro: filter_cong)

lemma upt_split:
  assumes "xs @ i # r = [0 ..< n]"
  shows "xs = [0 ..< i]" and "i < n" and "i \<notin> set xs"
proof -
  have len: "length xs < n" using arg_cong [OF assms, of length] by simp
  have "[0 ..< n] ! length xs = i" using assms by (metis nth_append_length)
  with len have i: "i = length xs" by simp
  have "take (length xs) (xs @ i # r) = xs" by simp
  with assms have "xs = take (length xs) [0 ..< n]" by simp
  with len i show "xs = [0 ..< i]" by (simp add: take_upt)
  then show "i \<notin> set xs" by simp
  from len i show "i < n" by simp
qed

lemma adm_ok_Finished: "adm_ok limit l \<Longrightarrow> adm_ok limit (l @ [Finished i w])"
  unfolding adm_ok_def
proof (intro allI impI)
  fix p j r
  assume a: "\<forall>p j r. l = p @ Started j # r \<longrightarrow>
        started p = [0 ..< j] \<and> int (length (in_flight p)) < max 1 limit"
    and e: "l @ [Finished i w] = p @ Started j # r"
  from e have "r \<noteq> []" by (cases r rule: rev_cases) auto
  then obtain r' x where r: "r = r' @ [x]" by (cases r rule: rev_cases) auto
  with e have "l = p @ Started j # r'" by simp
  with a show "started p = [0 ..< j] \<and> int (length (in_flight p)) < max 1 limit" by blast
qed

lemma adm_ok_Started:
  assumes "adm_ok limit l" "started l = [0 ..< i]" "int (length (in_flight l)) < max 1 limit"
  shows "adm_ok limit (l @ [Started i])"
  unfolding adm_ok_def
proof (intro allI impI)
  fix p j r
  assume e: "l @ [Started i] = p @ Started j # r"
  show "started p = [0 ..< j] \<and> int (length (in_flight p)) < max 1 limit"
  proof (cases r rule: rev_cases)
    case Nil
    with e have "p = l" "j = i" by simp_all
    with assms show ?thesis by simp
  next
    case (snoc r' x)
    with e have "l = p @ Started j # r'" by simp
    with assms(1) show ?thesis unfolding adm_ok_def by blast
  qed
qed

lemma log_ok_start:
  assumes "log_ok tasks (i # rest) s"
  shows "log_ok tasks rest
           (s\<lparr>todo := rest, executing := set_add i (executing s), log := log s @ [Started i]\<rparr>)"
    and "set_add i (executing s) = executing s @ [i]"
    and "started (log s) = [0 ..< i]"
proof -
  from assms have eq: "started (log s) @ i # rest = [0 ..< length tasks]"
    and dist: "distinct (finished (log s))"
    and fin: "set (finished (log s)) \<subseteq> set (started (log s))"
    and ex: "executing s = in_flight (log s)"
    and out: "\<forall>i w. Finished i w \<in> set (log s) \<longrightarrow> i < length tasks \<and> w = tasks ! i"
    by (simp_all add: log_ok_def)
  from upt_split [OF eq] show st: "started (log s) = [0 ..< i]" by simp
  from upt_split [OF eq] have notin: "i \<notin> set (started (log s))" by simp
  with fin have nf: "i \<notin> set (finished (log s))" by blast
  from notin in_flight_subset [of "log s"] ex have "i \<notin> set (executing s)" by auto
  then show add: "set_add i (executing s) = executing s @ [i]" by (simp add: set_add_def)
  show "log_ok tasks rest
           (s\<lparr>todo := rest, executing := set_add i (executing s), log := log s @ [Started i]\<rparr>)"
    using eq dist fin ex out nf add
    by (auto simp: log_ok_def started_append finished_append in_flight_Started)
qed

lemma admit_inv:
  assumes "log_ok tasks ts s" "adm_ok limit (log s)"
    and "int (length (executing s)) < max 1 limit"
  shows "runner_inv tasks limit (admit limit ts s)"
  using assms
proof (induction ts arbitrary: s)
  case Nil
  then show ?case
    by (auto simp: runner_inv_def log_ok_def ctl_ok_def await_all_def)
next
  case (Cons i rest)
  let ?s1 = "s\<lparr>todo := rest, executing := set_add i (executing s), log := log s @ [Started i]\<rparr>"
  note st = log_ok_start [OF Cons.prems(1)]
  from Cons.prems(1) have ex: "executing s = in_flight (log s)" by (simp add: log_ok_def)
  have adm: "adm_ok limit (log ?s1)"
    using adm_ok_Started [OF Cons.prems(2) st(3)] Cons.prems(3) ex by simp
  show ?case
  proof (cases "limit \<le> int (length (executing ?s1))")
    case True
    then have "admit limit (i # rest) s = ?s1\<lparr>ctl := AwaitRace (executing ?s1)\<rparr>"
      by (simp add: Let_def)
    moreover have "int (length (executing ?s1)) \<le> max 1 limit" "executing ?s1 \<noteq> []"
      using Cons.prems(3) st(2) by simp_all
    then have "runner_inv tasks limit (?s1\<lparr>ctl := AwaitRace (executing ?s1)\<rparr>)"
      using st(1) adm
      by (simp add: runner_inv_def log_ok_def ctl_ok_def)
    ultimately show ?thesis by simp
  next
    case False
    then have eq: "admit limit (i # rest) s = admit limit rest ?s1"
      by (simp add: Let_def)
    from False have "int (length (executing ?s1)) < max 1 limit" by simp
    from Cons.IH [OF st(1) adm this] eq show ?thesis by simp
  qed
qed

lemma inv_init: "runner_inv tasks limit (runWithConcurrency tasks limit)"
  unfolding runWithConcurrency_def
  by (rule admit_inv) (simp_all add: log_ok_def adm_ok_def in_flight_def)

lemma inv_todo: "runner_inv tasks limit s \<Longrightarrow> log_ok tasks (todo s) s"
  by (simp add: runner_inv_def)

lemma settle_inv:
  assumes "runner_inv tasks limit s" "settle tasks i s = Some s'"
  shows "runner_inv tasks limit s'"
proof -
  from assms(2) have fl: "i \<in> set (in_flight (log s))" and lt: "i < length tasks"
    and s': "s' = s\<lparr>executing := set_delete i (executing s),
                log := log s @ [Finished i (tasks ! i)],
                ctl := on_settle i (tasks ! i) (ctl s)\<rparr>"
    by (auto simp: settle_def split: if_splits)
  from assms(1) have lo: "log_ok tasks (todo s) s" and adm: "adm_ok limit (log s)"
    and co: "ctl_ok limit s" by (simp_all add: runner_inv_def)
  from lo have ex: "executing s = in_flight (log s)" by (simp add: log_ok_def)
  from fl have ist: "i \<in> set (started (log s))" using in_flight_subset by blast
  have len: "length (removeAll i (executing s)) < length (executing s)"
    using fl ex by (simp add: length_removeAll_less)
  from fl have inf: "i \<notin> set (finished (log s))" by (simp add: in_flight_def)
  have lo': "log_ok tasks (todo s') s'"
    using lo lt ist inf
    by (auto simp: s' log_ok_def started_append finished_append in_flight_Finished set_delete_def)
  have adm': "adm_ok limit (log s')"
    using adm_ok_Finished [OF adm] by (simp add: s')
  have co': "ctl_ok limit s'"
  proof (cases "ctl s")
    case Running
    with co show ?thesis by (simp add: ctl_ok_def)
  next
    case (AwaitRace S)
    with co fl ex len show ?thesis
      by (auto simp: ctl_ok_def s' set_delete_def)
  next
    case (RaceSettled u)
    with co len show ?thesis
      by (auto simp: ctl_ok_def s' set_delete_def)
  next
    case (AwaitAll S)
    with co fl ex len show ?thesis
      by (cases "tasks ! i") (auto simp: ctl_ok_def s' set_delete_def await_all_def)
  next
    case (Done u)
    with co len show ?thesis
      by (cases u) (auto simp: ctl_ok_def s' set_delete_def)
  qed
  from lo' adm' co' show ?thesis by (simp add: runner_inv_def)
qed

lemma resume_inv:
  assumes "runner_inv tasks limit s" "resume limit s = Some s'"
  shows "runner_inv tasks limit s'"
proof (cases "ctl s")
  case (RaceSettled u)
  from assms(1) have lo: "log_ok tasks (todo s) s" and adm: "adm_ok limit (log s)"
    and co: "ctl_ok limit s" by (simp_all add: runner_inv_def)
  show ?thesis
  proof (cases u)
    case Fulfilled
    with RaceSettled assms(2) have "s' = admit limit (todo s) s" by (simp add: resume_def)
    moreover from co RaceSettled have "int (length (executing s)) < max 1 limit"
      by (simp add: ctl_ok_def)
    ultimately show ?thesis using admit_inv [OF lo adm] by simp
  next
    case (Rejected e)
    with RaceSettled assms(2) have "s' = s\<lparr>ctl := Done (Rejected e)\<rparr>" by (simp add: resume_def)
    with lo adm co RaceSettled Rejected show ?thesis
      by (auto simp: runner_inv_def log_ok_def ctl_ok_def)
  qed
qed (use assms(2) in \<open>simp_all add: resume_def\<close>)

lemma step_inv: "runner_inv tasks limit s \<Longrightarrow> step tasks limit s ev = Some s' \<Longrightarrow> runner_inv tasks limit s'"
  by (cases ev) (auto intro: settle_inv resume_inv)

lemma run_from_inv:
  "runner_inv tasks limit s \<Longrightarrow> run_from tasks limit s evs = Some s' \<Longrightarrow> runner_inv tasks limit s'"
proof (induction evs arbitrary: s)
  case Nil
  then show ?case by simp
next
  case (Cons ev evs)
  then show ?case by (auto split: option.splits dest: step_inv)
qed

lemma exec_inv: "exec tasks limit evs = Some s \<Longrightarrow> runner_inv tasks limit s"
  unfolding exec_def by (rule run_from_inv [OF inv_init])

lemma in_flight_snoc_le:
  "length (in_flight (l @ [x])) \<le> Suc (length (in_flight l))"
proof (cases x)
  case (Started i)
  then show ?thesis
    by (simp add: in_flight_def started_append finished_append)
next
  case (Finished i w)
  have "length (removeAll i (in_flight l)) \<le> length (in_flight l)"
    by (simp add: removeAll_filter_not_eq)
  with Finished show ?thesis by (simp add: in_flight_Finished le_SucI)
qed

lemma in_flight_take_bound:
  assumes "adm_ok limit l"
  shows "int (length (in_flight (take k l))) \<le> max 1 limit"
proof (induction k)
  case 0
  show ?case by (simp add: in_flight_def)
next
  case (Suc k)
  show ?case
  proof (cases "k < length l")
    case False
    then have "take (Suc k) l = take k l" by simp
    with Suc show ?thesis by simp
  next
    case True
    then have tk: "take (Suc k) l = take k l @ [l ! k]" by (simp add: take_Suc_conv_app_nth)
    show ?thesis
    proof (cases "l ! k")
      case (Started j)
      from id_take_nth_drop [OF True] have "l = take k l @ Started j # drop (Suc k) l"
        unfolding Started .
      with assms have "int (length (in_flight (take k l))) < max 1 limit"
        unfolding adm_ok_def by blast
      with in_flight_snoc_le [of "take k l" "l ! k"] tk show ?thesis by simp
    next
      case (Finished i w)
      have "int (length (removeAll i (in_flight (take k l)))) \<le> int (length (in_flight (take k l)))"
        by (simp add: removeAll_filter_not_eq)
      from this Suc have "int (length (removeAll i (in_flight (take k l)))) \<le> max 1 limit"
        by (rule order_trans)
      with tk Finished show ?thesis by (simp add: in_flight_Finished)
    qed
  qed
qed

lemma start_needs_completion:
  assumes "adm_ok limit l" "k < length l" "l ! k = Started j" "limit \<le> int j" "1 \<le> limit"
  shows "\<exists>i<j. i \<in> set (finished (take k l))"
proof -
  let ?p = "take k l"
  from id_take_nth_drop [OF assms(2)] have "l = ?p @ Started j # drop (Suc k) l"
    unfolding assms(3) .
  with assms(1) have st: "started ?p = [0 ..< j]"
    and fl: "int (length (in_flight ?p)) < max 1 limit"
    unfolding adm_ok_def by blast+
  from fl assms(4,5) st have lt: "length (filter (\<lambda>i. i \<notin> set (finished ?p)) (started ?p)) < length (started ?p)"
    by (simp add: in_flight_def)
  have "\<not> (\<forall>i\<in>set (started ?p). i \<notin> set (finished ?p))"
  proof
    assume "\<forall>i\<in>set (started ?p). i \<notin> set (finished ?p)"
    then have "filter (\<lambda>i. i \<notin> set (finished ?p)) (started ?p) = started ?p"
      by (rule filter_True)
    with lt show False by simp
  qed
  then obtain i where "i \<in> set (started ?p)" "i \<in> set (finished ?p)"
    by blast
  with st show ?thesis by auto
qed

lemma started_upt:
  assumes "log_ok tasks ts s"
  shows "started (log s) = [0 ..< length (started (log s))]"
    and "length (started (log s)) \<le> length tasks"
proof -
  from assms have eq: "started (log s) @ ts = [0 ..< length tasks]" by (simp add: log_ok_def)
  from arg_cong [OF eq, of length] show le: "length (started (log s)) \<le> length tasks" by simp
  have "take (length (started (log s))) (started (log s) @ ts) = started (log s)" by simp
  with eq have "started (log s) = take (length (started (log s))) [0 ..< length tasks]" by simp
  with le show "started (log s) = [0 ..< length (started (log s))]"
    by (simp add: take_upt)
qed

lemma in_flight_lt:
  assumes "log_ok tasks ts s" "i \<in> set (in_flight (log s))"
  shows "i < length tasks"
proof -
  from assms(2) in_flight_subset have "i \<in> set (started (log s))" by blast
  with started_upt [OF assms(1)] have "i \<in> set [0 ..< length (started (log s))]" by simp
  with started_upt(2) [OF assms(1)] show ?thesis by simp
qed

lemma Finished_in_finished: "Finished i w \<in> set l \<Longrightarrow> i \<in> set (finished l)"
  by (induction l rule: finished.induct) auto

lemma rejection_source:
  assumes "runner_inv tasks limit s" "ctl s = Done (Rejected e)"
  shows "\<exists>i<length tasks. tasks ! i = Rejected e \<and> i \<in> set (finished (log s))"
proof -
  from assms have "\<exists>i. Finished i (Rejected e) \<in> set (log s)"
    by (simp add: runner_inv_def ctl_ok_def)
  then obtain i where i: "Finished i (Rejected e) \<in> set (log s)" ..
  from assms(1) i have "i < length tasks \<and> Rejected e = tasks ! i"
    by (simp add: runner_inv_def log_ok_def)
  with Finished_in_finished [OF i] show ?thesis by auto
qed

lemma resolved_all_done:
  assumes "runner_inv tasks limit s" "ctl s = Done Fulfilled"
  shows "started (log s) = [0 ..< length tasks]"
    and "set (finished (log s)) = {..< length tasks}"
    and "distinct (finished (log s))"
proof -
  from assms have td: "todo s = []" and ex: "executing s = []"
    by (simp_all add: runner_inv_def ctl_ok_def)
  from assms(1) have lo: "log_ok tasks (todo s) s" by (simp add: runner_inv_def)
  with td show st: "started (log s) = [0 ..< length tasks]" by (simp add: log_ok_def)
  from lo show "distinct (finished (log s))" by (simp add: log_ok_def)
  from lo ex have "in_flight (log s) = []" by (simp add: log_ok_def)
  then have a: "set (started (log s)) \<subseteq> set (finished (log s))"
    by (auto simp: in_flight_def filter_empty_conv)
  from lo have b: "set (finished (log s)) \<subseteq> set (started (log s))"
    by (simp add: log_ok_def)
  from b a have "set (finished (log s)) = set (started (log s))"
    by (rule equalityI)
  with st show "set (finished (log s)) = {..< length tasks}"
    by (simp add: lessThan_atLeast0)
qed

lemma quiescent_settled:
  assumes "runner_inv tasks limit s" "quiescent s"
  shows "\<exists>w. ctl s = Done w"
proof -
  from assms(2) have en: "enabled s = []" by (simp add: quiescent_def)
  then have nf: "in_flight (log s) = []" by (simp add: enabled_def)
  from en have nr: "\<forall>w. ctl s \<noteq> RaceSettled w" by (auto simp: enabled_def)
  from assms(1) have "executing s = in_flight (log s)" by (simp add: runner_inv_def log_ok_def)
  with nf have ex: "executing s = []" by simp
  from assms(1) have "ctl_ok limit s" by (simp add: runner_inv_def)
  with ex nr show ?thesis by (cases "ctl s") (auto simp: ctl_ok_def)
qed

lemma quiescent_resolved:
  assumes "runner_inv tasks limit s" "quiescent s" "set tasks \<subseteq> {Fulfilled}"
  shows "ctl s = Done Fulfilled"
proof -
  from quiescent_settled [OF assms(1,2)] obtain w where w: "ctl s = Done w" ..
  show ?thesis
  proof (cases w)
    case Fulfilled
    with w show ?thesis by simp
  next
    case (Rejected e)
    with w rejection_source [OF assms(1)] obtain i where "i < length tasks" "tasks ! i = Rejected e"
      by blast
    then have "Rejected e \<in> set tasks" using nth_mem [of i tasks] by simp
    with assms(3) show ?thesis by auto
  qed
qed

lemma potential_bound:
  "potential s \<le> Suc (2 * (length (todo s) + length (in_flight (log s))))"
  by (cases "ctl s") (simp_all add: potential_def)

lemma admit_potential:
  assumes "log_ok tasks ts s"
  shows "potential (admit limit ts s) = 2 * (length ts + length (in_flight (log s)))"
  using assms
proof (induction ts arbitrary: s)
  case Nil
  then show ?case by (simp add: potential_def await_all_def)
next
  case (Cons i rest)
  let ?s1 = "s\<lparr>todo := rest, executing := set_add i (executing s), log := log s @ [Started i]\<rparr>"
  note st = log_ok_start [OF Cons.prems]
  from Cons.prems have "executing s = in_flight (log s)" by (simp add: log_ok_def)
  moreover from st(1) have "executing ?s1 = in_flight (log ?s1)" by (simp add: log_ok_def)
  ultimately have len: "length (in_flight (log ?s1)) = Suc (length (in_flight (log s)))"
    using st(2) by simp
  show ?case
  proof (cases "limit \<le> int (length (executing ?s1))")
    case True
    then have "admit limit (i # rest) s = ?s1\<lparr>ctl := AwaitRace (executing ?s1)\<rparr>"
      by (simp add: Let_def)
    with len show ?thesis by (simp add: potential_def)
  next
    case False
    then have "admit limit (i # rest) s = admit limit rest ?s1"
      by (simp add: Let_def)
    with Cons.IH [OF st(1)] len show ?thesis by simp
  qed
qed

lemma settle_potential:
  assumes "settle tasks i s = Some s'"
  shows "potential s' < potential s"
proof -
  from assms have fl: "i \<in> set (in_flight (log s))"
    and s': "s' = s\<lparr>executing := set_delete i (executing s),
                log := log s @ [Finished i (tasks ! i)],
                ctl := on_settle i (tasks ! i) (ctl s)\<rparr>"
    by (auto simp: settle_def split: if_splits)
  from fl have "length (removeAll i (in_flight (log s))) < length (in_flight (log s))"
    by (simp add: length_removeAll_less)
  then have "length (in_flight (log s')) < length (in_flight (log s))"
    by (simp add: s' in_flight_Finished)
  moreover have "todo s' = todo s" by (simp add: s')
  moreover have "2 * (length (todo s) + length (in_flight (log s))) \<le> potential s"
    by (simp add: potential_def)
  moreover note potential_bound [of s']
  ultimately show ?thesis by simp
qed

lemma resume_potential:
  assumes "runner_inv tasks limit s" "resume limit s = Some s'"
  shows "potential s' < potential s"
proof (cases "ctl s")
  case (RaceSettled u)
  then have p: "potential s = Suc (2 * (length (todo s) + length (in_flight (log s))))"
    by (simp add: potential_def)
  show ?thesis
  proof (cases u)
    case Fulfilled
    with RaceSettled assms(2) have "s' = admit limit (todo s) s" by (simp add: resume_def)
    with admit_potential [OF inv_todo [OF assms(1)]] p show ?thesis by simp
  next
    case (Rejected e)
    with RaceSettled assms(2) have "s' = s\<lparr>ctl := Done (Rejected e)\<rparr>" by (simp add: resume_def)
    with p show ?thesis by (simp add: potential_def)
  qed
qed (use assms(2) in \<open>simp_all add: resume_def\<close>)

lemma step_potential:
  "runner_inv tasks limit s \<Longrightarrow> step tasks limit s ev = Some s' \<Longrightarrow> potential s' < potential s"
  by (cases ev) (auto intro: settle_potential resume_potential)

lemma run_from_potential:
  "runner_inv tasks limit s \<Longrightarrow> run_from tasks limit s evs = Some s' \<Longrightarrow>
     length evs + potential s' \<le> potential s"
proof (induction evs arbitrary: s)
  case Nil
  then show ?case by simp
next
  case (Cons ev evs)
  from Cons.prems(2) obtain s1 where s1: "step tasks limit s ev = Some s1"
    and r: "run_from tasks limit s1 evs = Some s'"
    by (auto split: option.splits)
  from Cons.IH [OF step_inv [OF Cons.prems(1) s1] r] step_potential [OF Cons.prems(1) s1]
  show ?case by simp
qed

lemma potential_init: "potential (runWithConcurrency tasks limit) = 2 * length tasks"
  unfolding runWithConcurrency_def
  by (subst admit_potential [where tasks = tasks])
     (simp_all add: log_ok_def in_flight_def)

lemma enabled_step:
  assumes "runner_inv tasks limit s" "ev \<in> set (enabled s)"
  shows "\<exists>s'. step tasks limit s ev = Some s'"
proof (cases ev)
  case (Settle i)
  with assms(2) have "i \<in> set (in_flight (log s))"
    by (auto simp: enabled_def split: control.splits)
  with in_flight_lt [OF inv_todo [OF assms(1)]] Settle show ?thesis
    by (simp add: settle_def)
next
  case Resume
  with assms(2) have "\<exists>w. ctl s = RaceSettled w"
    by (cases "ctl s") (auto simp: enabled_def)
  then obtain w where "ctl s = RaceSettled w" ..
  with Resume show ?thesis by (cases w) (simp_all add: resume_def)
qed

lemma run_from_append:
  "run_from tasks limit s evs = Some s1 \<Longrightarrow>
     run_from tasks limit s (evs @ evs') = run_from tasks limit s1 evs'"
  by (induction evs arbitrary: s) (auto split: option.splits)

lemma can_finish:
  "runner_inv tasks limit s \<Longrightarrow> \<exists>evs s'. run_from tasks limit s evs = Some s' \<and> quiescent s'"
proof (induction "potential s" arbitrary: s rule: less_induct)
  case less
  show ?case
  proof (cases "quiescent s")
    case True
    then have "run_from tasks limit s [] = Some s \<and> quiescent s" by simp
    then show ?thesis by blast
  next
    case False
    then obtain ev where "ev \<in> set (enabled s)"
      by (cases "enabled s") (auto simp: quiescent_def)
    from enabled_step [OF less.prems this] obtain s1 where s1: "step tasks limit s ev = Some s1" ..
    from less.hyps [OF step_potential [OF less.prems s1] step_inv [OF less.prems s1]]
    obtain evs s' where "run_from tasks limit s1 evs = Some s'" "quiescent s'" by blast
    with s1 have "run_from tasks limit s (ev # evs) = Some s' \<and> quiescent s'" by simp
    then show ?thesis by blast
  qed
qed

lemma done_stays:
  "ctl s = Done w \<Longrightarrow> run_from tasks limit s evs = Some s' \<Longrightarrow>
     ctl s' = Done w \<and> started (log s') = started (log s) \<and> todo s' = todo s"
proof (induction evs arbitrary: s)
  case Nil
  then show ?case by simp
next
  case (Cons ev evs)
  from Cons.prems(2) obtain s1 where s1: "step tasks limit s ev = Some s1"
    and r: "run_from tasks limit s1 evs = Some s'"
    by (auto split: option.splits)
  from s1 Cons.prems(1) have "ctl s1 = Done w \<and> started (log s1) = started (log s) \<and> todo s1 = todo s"
    by (cases ev) (auto simp: settle_def resume_def started_append split: if_splits)
  with Cons.IH [OF _ r] show ?case by simp
qed

lemma settle_in_flight:
  assumes "runner_inv tasks limit s" "i \<in> set (in_flight (log s))"
  shows "\<exists>s'. step tasks limit s (Settle i) = Some s'
            \<and> log s' = log s @ [Finished i (tasks ! i)]
            \<and> in_flight (log s') = removeAll i (in_flight (log s))"
  using in_flight_lt [OF inv_todo [OF assms(1)] assms(2)] assms(2)
  by (simp add: settle_def in_flight_Finished)

lemma settle_two:
  assumes "runner_inv tasks limit s" "i \<in> set (in_flight (log s))" "j \<in> set (in_flight (log s))"
    and "i \<noteq> j"
  shows "run_from tasks limit s [Settle i, Settle j] \<noteq> None"
proof -
  from settle_in_flight [OF assms(1,2)] obtain s1
    where s1: "step tasks limit s (Settle i) = Some s1"
      and fl: "in_flight (log s1) = removeAll i (in_flight (log s))" by blast
  from fl assms(3,4) have "j \<in> set (in_flight (log s1))" by simp
  from settle_in_flight [OF step_inv [OF assms(1) s1] this] obtain s2
    where "step tasks limit s1 (Settle j) = Some s2" by blast
  with s1 show ?thesis by simp
qed

lemma no_reject:
  assumes "runner_inv tasks limit s" "set tasks \<subseteq> {Fulfilled}"
  shows "ctl s \<noteq> Done (Rejected e)"
proof
  assume "ctl s = Done (Rejected e)"
  from rejection_source [OF assms(1) this] obtain i where "i < length tasks" "tasks ! i = Rejected e"
    by blast
  then have "Rejected e \<in> set tasks" using nth_mem [of i tasks] by simp
  with assms(2) show False by auto
qed

lemma can_resolve:
  assumes "exec tasks limit evs = Some s" "set tasks \<subseteq> {Fulfilled}"
  shows "\<exists>evs' s'. exec tasks limit (evs @ evs') = Some s' \<and> ctl s' = Done Fulfilled"
proof -
  note i = exec_inv [OF assms(1)]
  from can_finish [OF i] obtain evs' s' where r: "run_from tasks limit s evs' = Some s'"
    and q: "quiescent s'" by blast
  from assms(1) r have e: "exec tasks limit (evs @ evs') = Some s'"
    by (simp add: exec_def run_from_append)
  from quiescent_resolved [OF run_from_inv [OF i r] q assms(2)] e show ?thesis by blast
qed

lemma exec_length:
  assumes "exec tasks limit evs = Some s"
  shows "length evs \<le> 2 * length tasks"
proof -
  from assms have "run_from tasks limit (runWithConcurrency tasks limit) evs = Some s"
    by (simp add: exec_def)
  from run_from_potential [OF inv_init this] show ?thesis
    by (simp add: potential_init)
qed

lemma started_distinct:
  assumes "runner_inv tasks limit s"
  shows "distinct (started (log s))"
proof -
  from started_upt(1) [OF inv_todo [OF assms]]
  have "started (log s) = [0 ..< length (started (log s))]" .
  then have "distinct (started (log s)) = distinct [0 ..< length (started (log s))]" by simp
  then show ?thesis by simp
qed

lemma start_free_slot:
  assumes "adm_ok limit l" "k < length l" "l ! k = Started j"
  shows "int (length (in_flight (take k l))) < max 1 limit"
proof -
  from id_take_nth_drop [OF assms(2)] have "l = take k l @ Started j # drop (Suc k) l"
    unfolding assms(3) .
  with assms(1) show ?thesis unfolding adm_ok_def by blast
qed

subsection \<open>What the specification says of the batch runner\<close>

text \<open>
  C2: with a limit of at least 1, at no point of the history of a run are more than
  \<open>limit\<close> jobs started and not yet completed: the bound holds after every prefix of the
  log of starts and completions, hence also now.
\<close>

theorem runWithConcurrency_bounded:
  assumes "1 \<le> limit" and "exec tasks limit evs = Some s"
  shows "int (length (in_flight (take k (log s)))) \<le> limit
       \<and> int (length (in_flight (log s))) \<le> limit"
proof -
  from exec_inv [OF assms(2)] have adm: "adm_ok limit (log s)" by (simp add: runner_inv_def)
  from assms(1) have m: "max 1 limit = limit" by simp
  from in_flight_take_bound [OF adm, of k] in_flight_take_bound [OF adm, of "length (log s)"] m
  show ?thesis by simp
qed

theorem runWithConcurrency_bounded_witness:
  "(1::int) \<le> 2
   \<and> exec [Fulfilled, Fulfilled, Fulfilled :: unit settled] 2 [Settle 1, Resume] =
       Some \<lparr>todo = [], executing = [0, 2],
              log = [Started 0, Started 1, Finished 1 Fulfilled, Started 2],
              ctl = AwaitRace [0, 2]\<rparr>
   \<and> int (length (in_flight [Started 0, Started 1 :: unit job_event])) \<le> 2
   \<and> int (length (in_flight [Started 0, Started 1, Finished 1 (Fulfilled :: unit settled), Started 2])) \<le> 2"
proof -
  have h: "(1::int) \<le> 2" by simp
  have e: "exec [Fulfilled, Fulfilled, Fulfilled :: unit settled] 2 [Settle 1, Resume] =
       Some \<lparr>todo = [], executing = [0, 2],
              log = [Started 0, Started 1, Finished 1 Fulfilled, Started 2],
              ctl = AwaitRace [0, 2]\<rparr>"
    by code_simp
  from runWithConcurrency_bounded [OF h e, of 2] h e show ?thesis by simp
qed

text \<open>
  C7: with a limit of at least 1, jobs are started in submission order (the jobs started
  so far are the first ones of the batch, in order); a job with at least \<open>limit\<close> jobs
  before it (job number \<open>k + limit\<close> with \<open>k \<ge> 1\<close>, counting jobs from 1) is started only
  after one of the jobs before it has completed; and completion is not ordered: of two jobs in flight
  either may complete first.
\<close>

theorem runWithConcurrency_start_order:
  assumes "1 \<le> limit" and "exec tasks limit evs = Some s"
  shows "started (log s) = [0 ..< length (started (log s))]
       \<and> (\<forall>k j. k < length (log s) \<and> log s ! k = Started j \<and> limit \<le> int j
             \<longrightarrow> (\<exists>i<j. i \<in> set (finished (take k (log s)))))
       \<and> (\<forall>i j. i \<in> set (in_flight (log s)) \<and> j \<in> set (in_flight (log s)) \<and> i \<noteq> j
             \<longrightarrow> run_from tasks limit s [Settle i, Settle j] \<noteq> None
               \<and> run_from tasks limit s [Settle j, Settle i] \<noteq> None)"
proof -
  note i = exec_inv [OF assms(2)]
  then have adm: "adm_ok limit (log s)" by (simp add: runner_inv_def)
  have a: "started (log s) = [0 ..< length (started (log s))]"
    by (rule started_upt(1) [OF inv_todo [OF i]])
  have b: "\<forall>k j. k < length (log s) \<and> log s ! k = Started j \<and> limit \<le> int j
             \<longrightarrow> (\<exists>i<j. i \<in> set (finished (take k (log s))))"
    using start_needs_completion [OF adm _ _ _ assms(1)] by blast
  have c: "\<forall>a b. a \<in> set (in_flight (log s)) \<and> b \<in> set (in_flight (log s)) \<and> a \<noteq> b
             \<longrightarrow> run_from tasks limit s [Settle a, Settle b] \<noteq> None
               \<and> run_from tasks limit s [Settle b, Settle a] \<noteq> None"
    using settle_two [OF i] by blast
  show ?thesis by (intro conjI a b c)
qed

theorem runWithConcurrency_start_order_witness:
  "(1::int) \<le> 2
   \<and> exec [Fulfilled, Fulfilled, Fulfilled :: unit settled] 2 [Settle 1, Resume] =
       Some \<lparr>todo = [], executing = [0, 2],
              log = [Started 0, Started 1, Finished 1 Fulfilled, Started 2],
              ctl = AwaitRace [0, 2]\<rparr>
   \<and> (\<exists>i<2. i \<in> set (finished [Started 0, Started 1, Finished 1 (Fulfilled :: unit settled)]))
   \<and> run_from [Fulfilled, Fulfilled, Fulfilled :: unit settled] 2
         \<lparr>todo = [], executing = [0, 2],
          log = [Started 0, Started 1, Finished 1 Fulfilled, Started 2],
          ctl = AwaitRace [0, 2]\<rparr> [Settle 2, Settle 0] \<noteq> None"
proof -
  let ?s = "\<lparr>todo = [], executing = [0, 2],
              log = [Started 0, Started 1, Finished 1 (Fulfilled :: unit settled), Started 2],
              ctl = AwaitRace [0, 2]\<rparr>"
  have h: "(1::int) \<le> 2" by simp
  have e: "exec [Fulfilled, Fulfilled, Fulfilled :: unit settled] 2 [Settle 1, Resume] = Some ?s"
    by code_simp
  note t = runWithConcurrency_start_order [OF h e]
  have "\<exists>i<2. i \<in> set (finished (take 3 (log ?s)))"
    by (rule t [THEN conjunct2, THEN conjunct1, rule_format, of 3 2]) simp
  then have b: "\<exists>i<2. i \<in> set (finished [Started 0, Started 1, Finished 1 (Fulfilled :: unit settled)])"
    by simp
  have c: "run_from [Fulfilled, Fulfilled, Fulfilled :: unit settled] 2 ?s [Settle 2, Settle 0] \<noteq> None"
    by (rule t [THEN conjunct2, THEN conjunct2, rule_format, of 2 0, THEN conjunct1])
       (simp add: in_flight_def)
  show ?thesis by (intro conjI h e b c)
qed

text \<open>
  C1, as the code has it: the promise of the runner is rejected only by a job, with the
  error of a job that has completed with a rejected promise (so never when no job
  rejects); a job in flight is never interrupted and can still complete; but once the
  promise of the runner has settled, in particular rejected because the rejection of a
  job reached its \<open>await\<close>, no further job is started.
\<close>

theorem runWithConcurrency_rejection:
  assumes "1 \<le> limit" and "exec tasks limit evs = Some s"
  shows "(\<forall>e. ctl s = Done (Rejected e)
            \<longrightarrow> (\<exists>i<length tasks. tasks ! i = Rejected e \<and> i \<in> set (finished (log s))))
       \<and> (\<forall>i. i \<in> set (in_flight (log s))
            \<longrightarrow> (\<exists>s'. step tasks limit s (Settle i) = Some s'
                      \<and> log s' = log s @ [Finished i (tasks ! i)]))
       \<and> (\<forall>w evs' s'. ctl s = Done w \<and> run_from tasks limit s evs' = Some s'
            \<longrightarrow> ctl s' = Done w \<and> started (log s') = started (log s))"
proof -
  note i = exec_inv [OF assms(2)]
  have a: "\<forall>e. ctl s = Done (Rejected e)
            \<longrightarrow> (\<exists>i<length tasks. tasks ! i = Rejected e \<and> i \<in> set (finished (log s)))"
    using rejection_source [OF i] by blast
  have b: "\<forall>i. i \<in> set (in_flight (log s))
            \<longrightarrow> (\<exists>s'. step tasks limit s (Settle i) = Some s'
                      \<and> log s' = log s @ [Finished i (tasks ! i)])"
    using settle_in_flight [OF i] by blast
  have c: "\<forall>w evs' s'. ctl s = Done w \<and> run_from tasks limit s evs' = Some s'
            \<longrightarrow> ctl s' = Done w \<and> started (log s') = started (log s)"
    using done_stays by blast
  show ?thesis by (intro conjI a b c)
qed

theorem runWithConcurrency_rejection_witness:
  "(1::int) \<le> 2
   \<and> exec [Fulfilled, Rejected ''quota'', Fulfilled] 2 [Settle 1, Resume] =
       Some \<lparr>todo = [2], executing = [0],
              log = [Started 0, Started 1, Finished 1 (Rejected ''quota'')],
              ctl = Done (Rejected ''quota'')\<rparr>
   \<and> (\<exists>i<3. [Fulfilled, Rejected ''quota'', Fulfilled] ! i = Rejected ''quota''
          \<and> i \<in> set (finished [Started 0, Started 1, Finished 1 (Rejected ''quota'')]))
   \<and> (\<exists>s'. step [Fulfilled, Rejected ''quota'', Fulfilled] 2
               \<lparr>todo = [2], executing = [0],
                log = [Started 0, Started 1, Finished 1 (Rejected ''quota'')],
                ctl = Done (Rejected ''quota'')\<rparr> (Settle 0) = Some s'
             \<and> log s' = [Started 0, Started 1, Finished 1 (Rejected ''quota''), Finished 0 Fulfilled])"
proof -
  let ?t = "[Fulfilled, Rejected ''quota'', Fulfilled]"
  let ?s = "\<lparr>todo = [2], executing = [0],
              log = [Started 0, Started 1, Finished 1 (Rejected ''quota'')],
              ctl = Done (Rejected ''quota'')\<rparr>"
  have h: "(1::int) \<le> 2" by simp
  have e: "exec ?t 2 [Settle 1, Resume] = Some ?s"
    by code_simp
  note t = runWithConcurrency_rejection [OF h e]
  have "\<exists>i<length ?t. ?t ! i = Rejected ''quota'' \<and> i \<in> set (finished (log ?s))"
    by (rule t [THEN conjunct1, rule_format]) simp
  then have a: "\<exists>i<3. ?t ! i = Rejected ''quota''
          \<and> i \<in> set (finished [Started 0, Started 1, Finished 1 (Rejected ''quota'')])"
    by simp
  have "\<exists>s'. step ?t 2 ?s (Settle 0) = Some s' \<and> log s' = log ?s @ [Finished 0 (?t ! 0)]"
    by (rule t [THEN conjunct2, THEN conjunct1, rule_format]) (simp add: in_flight_def)
  then have b: "\<exists>s'. step ?t 2 ?s (Settle 0) = Some s'
      \<and> log s' = [Started 0, Started 1, Finished 1 (Rejected ''quota''), Finished 0 Fulfilled]"
    by simp
  show ?thesis by (intro conjI h e a b)
qed

text \<open>
  A rejection that reaches the runner is not tolerated. Two tasks, limit 1, the first
  rejects: the runner's promise is rejected with the error of the first job, nothing more
  can happen, and the second task has never been invoked.
\<close>

theorem runWithConcurrency_rejection_counterexample:
  "exec [Rejected ''boom'', Fulfilled] 1 [Settle 0, Resume] =
     Some \<lparr>todo = [1], executing = [],
            log = [Started 0, Finished 0 (Rejected ''boom'')],
            ctl = Done (Rejected ''boom'')\<rparr>
   \<and> quiescent \<lparr>todo = [1], executing = [],
                 log = [Started 0, Finished 0 (Rejected ''boom'')],
                 ctl = Done (Rejected ''boom'')\<rparr>
   \<and> 1 \<notin> set (started [Started 0, Finished 0 (Rejected ''boom'')])"
  by code_simp

text \<open>
  C3, as the code has it: with a limit of at least 1 no job is invoked twice; whenever the
  promise of the runner has resolved, every submitted job has been started exactly once,
  in submission order, and has completed, fulfilled or rejected; and when no job rejects,
  the promise of the runner is never rejected, has resolved once nothing more can happen,
  and every run can be continued until it has. No run has more than two events for each
  task. (A job whose rejection reaches the runner makes it drop the jobs not yet started.)
\<close>

theorem runWithConcurrency_complete:
  assumes "1 \<le> limit" and "exec tasks limit evs = Some s"
  shows "distinct (started (log s))
       \<and> (ctl s = Done Fulfilled
            \<longrightarrow> started (log s) = [0 ..< length tasks]
              \<and> distinct (finished (log s))
              \<and> set (finished (log s)) = {..< length tasks})
       \<and> (set tasks \<subseteq> {Fulfilled}
            \<longrightarrow> (\<forall>e. ctl s \<noteq> Done (Rejected e))
              \<and> (quiescent s \<longrightarrow> ctl s = Done Fulfilled)
              \<and> (\<exists>evs' s'. exec tasks limit (evs @ evs') = Some s' \<and> ctl s' = Done Fulfilled))
       \<and> length evs \<le> 2 * length tasks"
proof -
  note i = exec_inv [OF assms(2)]
  note d = exec_length [OF assms(2)]
  have a: "distinct (started (log s))" by (rule started_distinct [OF i])
  have b: "ctl s = Done Fulfilled
            \<longrightarrow> started (log s) = [0 ..< length tasks]
              \<and> distinct (finished (log s))
              \<and> set (finished (log s)) = {..< length tasks}"
    using resolved_all_done [OF i] by simp
  have c: "set tasks \<subseteq> {Fulfilled}
            \<longrightarrow> (\<forall>e. ctl s \<noteq> Done (Rejected e))
              \<and> (quiescent s \<longrightarrow> ctl s = Done Fulfilled)
              \<and> (\<exists>evs' s'. exec tasks limit (evs @ evs') = Some s' \<and> ctl s' = Done Fulfilled)"
  proof
    assume ft: "set tasks \<subseteq> {Fulfilled}"
    have c1: "\<forall>e. ctl s \<noteq> Done (Rejected e)"
      using no_reject [OF i ft] by simp
    have c2: "quiescent s \<longrightarrow> ctl s = Done Fulfilled"
      using quiescent_resolved [OF i _ ft] by simp
    note c3 = can_resolve [OF assms(2) ft]
    show "(\<forall>e. ctl s \<noteq> Done (Rejected e))
              \<and> (quiescent s \<longrightarrow> ctl s = Done Fulfilled)
              \<and> (\<exists>evs' s'. exec tasks limit (evs @ evs') = Some s' \<and> ctl s' = Done Fulfilled)"
      by (intro conjI c1 c2 c3)
  qed
  show ?thesis by (intro conjI a b c d)
qed

theorem runWithConcurrency_complete_witness:
  "(1::int) \<le> 2
   \<and> exec [Fulfilled, Fulfilled, Fulfilled :: unit settled] 2 [Settle 1, Resume, Settle 2, Settle 0] =
       Some \<lparr>todo = [], executing = [],
              log = [Started 0, Started 1, Finished 1 Fulfilled, Started 2,
                     Finished 2 Fulfilled, Finished 0 Fulfilled],
              ctl = RaceSettled Fulfilled\<rparr>
   \<and> exec [Fulfilled, Fulfilled, Fulfilled :: unit settled] 2
         [Settle 1, Resume, Settle 2, Settle 0, Resume] =
       Some \<lparr>todo = [], executing = [],
              log = [Started 0, Started 1, Finished 1 Fulfilled, Started 2,
                     Finished 2 Fulfilled, Finished 0 Fulfilled],
              ctl = Done Fulfilled\<rparr>
   \<and> set (finished [Started 0, Started 1, Finished 1 (Fulfilled :: unit settled), Started 2,
                     Finished 2 Fulfilled, Finished 0 Fulfilled]) = {..< 3}
   \<and> (\<exists>evs' s'. exec [Fulfilled, Fulfilled, Fulfilled :: unit settled] 2
                    ([Settle 1, Resume, Settle 2, Settle 0] @ evs') = Some s'
                 \<and> ctl s' = Done Fulfilled)"
proof -
  let ?t = "[Fulfilled, Fulfilled, Fulfilled :: unit settled]"
  let ?l = "[Started 0, Started 1, Finished 1 (Fulfilled :: unit settled), Started 2,
             Finished 2 Fulfilled, Finished 0 Fulfilled]"
  let ?s1 = "\<lparr>todo = [], executing = [], log = ?l, ctl = RaceSettled Fulfilled\<rparr>"
  let ?s2 = "\<lparr>todo = [], executing = [], log = ?l, ctl = Done Fulfilled\<rparr>"
  have h: "(1::int) \<le> 2" by simp
  have ft: "set ?t \<subseteq> {Fulfilled}" by simp
  have e1: "exec ?t 2 [Settle 1, Resume, Settle 2, Settle 0] = Some ?s1" by code_simp
  have e2: "exec ?t 2 [Settle 1, Resume, Settle 2, Settle 0, Resume] = Some ?s2" by code_simp
  have "set (finished (log ?s2)) = {..< length ?t}"
    by (rule runWithConcurrency_complete [OF h e2, THEN conjunct2, THEN conjunct1,
          rule_format, THEN conjunct2, THEN conjunct2]) simp
  then have a: "set (finished ?l) = {..< 3}" by (simp add: numeral_3_eq_3)
  have b: "\<exists>evs' s'. exec ?t 2 ([Settle 1, Resume, Settle 2, Settle 0] @ evs') = Some s'
                 \<and> ctl s' = Done Fulfilled"
    by (rule runWithConcurrency_complete [OF h e1, THEN conjunct2, THEN conjunct2,
          THEN conjunct1, rule_format, OF ft, THEN conjunct2, THEN conjunct2])
  show ?thesis by (intro conjI h e1 e2 a b)
qed

text \<open>
  A job can be dropped. Three tasks, limit 2, the second rejects first: the runner's
  promise is rejected, the first job still completes, nothing more can happen, and the
  third task has never been invoked.
\<close>

theorem runWithConcurrency_complete_counterexample:
  "exec [Fulfilled, Rejected ''quota'', Fulfilled] 2 [Settle 1, Resume, Settle 0] =
     Some \<lparr>todo = [2], executing = [],
            log = [Started 0, Started 1, Finished 1 (Rejected ''quota''), Finished 0 Fulfilled],
            ctl = Done (Rejected ''quota'')\<rparr>
   \<and> quiescent \<lparr>todo = [2], executing = [],
            log = [Started 0, Started 1, Finished 1 (Rejected ''quota''), Finished 0 Fulfilled],
            ctl = Done (Rejected ''quota'')\<rparr>
   \<and> 2 \<notin> set (started [Started 0, Started 1, Finished 1 (Rejected ''quota''), Finished 0 Fulfilled])"
  by code_simp

text \<open>
  C4, as the code has it: the runner does not check its limit. Called with a limit below
  1 it throws nothing: with no task its promise is resolved at once, otherwise it starts
  the first task and waits for it; and its promise is rejected only by a job whose
  promise rejects.
\<close>

theorem runWithConcurrency_no_limit_check:
  assumes "limit < 1"
  shows "runWithConcurrency tasks limit =
           (if tasks = [] then \<lparr>todo = [], executing = [], log = [], ctl = Done Fulfilled\<rparr>
            else \<lparr>todo = [1 ..< length tasks], executing = [0], log = [Started 0],
                  ctl = AwaitRace [0]\<rparr>)
       \<and> (\<forall>evs s e. exec tasks limit evs = Some s \<and> ctl s = Done (Rejected e)
            \<longrightarrow> (\<exists>i<length tasks. tasks ! i = Rejected e))"
proof -
  have a: "runWithConcurrency tasks limit =
           (if tasks = [] then \<lparr>todo = [], executing = [], log = [], ctl = Done Fulfilled\<rparr>
            else \<lparr>todo = [1 ..< length tasks], executing = [0], log = [Started 0],
                  ctl = AwaitRace [0]\<rparr>)"
  proof (cases tasks)
    case Nil
    then show ?thesis by (simp add: runWithConcurrency_def await_all_def)
  next
    case (Cons t ts)
    then have "[0 ..< length tasks] = 0 # [1 ..< length tasks]" by (simp add: upt_rec)
    with Cons assms show ?thesis
      by (simp add: runWithConcurrency_def set_add_def Let_def)
  qed
  have b: "\<forall>evs s e. exec tasks limit evs = Some s \<and> ctl s = Done (Rejected e)
            \<longrightarrow> (\<exists>i<length tasks. tasks ! i = Rejected e)"
  proof (intro allI impI)
    fix evs s e
    assume "exec tasks limit evs = Some s \<and> ctl s = Done (Rejected e)"
    then have "runner_inv tasks limit s" "ctl s = Done (Rejected e)"
      using exec_inv by blast+
    from rejection_source [OF this] show "\<exists>i<length tasks. tasks ! i = Rejected e" by blast
  qed
  show ?thesis by (intro conjI a b)
qed

theorem runWithConcurrency_no_limit_check_witness:
  "(0::int) < 1
   \<and> runWithConcurrency [Fulfilled, Rejected ''late''] 0 =
       \<lparr>todo = [1], executing = [0], log = [Started 0], ctl = AwaitRace [0]\<rparr>
   \<and> exec [Fulfilled, Rejected ''late''] 0 [Settle 0, Resume, Settle 1, Resume] =
       Some \<lparr>todo = [], executing = [],
              log = [Started 0, Finished 0 Fulfilled, Started 1, Finished 1 (Rejected ''late'')],
              ctl = Done (Rejected ''late'')\<rparr>
   \<and> (\<exists>i<2. [Fulfilled, Rejected ''late''] ! i = Rejected ''late'')"
proof -
  let ?t = "[Fulfilled, Rejected ''late'']"
  let ?s = "\<lparr>todo = [], executing = [],
              log = [Started 0, Finished 0 Fulfilled, Started 1, Finished 1 (Rejected ''late'')],
              ctl = Done (Rejected ''late'')\<rparr>"
  have h: "(0::int) < 1" by simp
  have e: "exec ?t 0 [Settle 0, Resume, Settle 1, Resume] = Some ?s" by code_simp
  note t = runWithConcurrency_no_limit_check [OF h, of ?t]
  from t [THEN conjunct1] have a: "runWithConcurrency ?t 0 =
       \<lparr>todo = [1], executing = [0], log = [Started 0], ctl = AwaitRace [0]\<rparr>"
    by (simp add: upt_rec)
  have "\<exists>i<length ?t. ?t ! i = Rejected ''late''"
    by (rule t [THEN conjunct2, rule_format, of "[Settle 0, Resume, Settle 1, Resume]" ?s])
       (rule conjI, rule e, simp)
  then have b: "\<exists>i<2. ?t ! i = Rejected ''late''" by (simp add: numeral_2_eq_2)
  show ?thesis by (intro conjI h a e b)
qed

text \<open>
  Limit 0 with one task: the call returns with the task started and the runner waiting
  for it, and once the task is done the runner's promise resolves.
\<close>

theorem runWithConcurrency_no_limit_check_counterexample:
  "exec [Fulfilled :: unit settled] 0 [] =
     Some \<lparr>todo = [], executing = [0], log = [Started 0], ctl = AwaitRace [0]\<rparr>
   \<and> exec [Fulfilled :: unit settled] 0 [Settle 0, Resume] =
     Some \<lparr>todo = [], executing = [], log = [Started 0, Finished 0 Fulfilled],
            ctl = Done Fulfilled\<rparr>"
  by code_simp

text \<open>
  C10: with a limit of 0 or less and tasks that never reject, the runner throws nothing
  and its promise is never rejected; no task is invoked twice; a task is started only when
  no job is in flight, so at most one job is in flight at any point of the history; when
  the promise has resolved every task has been invoked once and has completed; the
  promise has resolved once nothing more can happen, every run can be continued until it
  has, and no run has more than two events for each task.
\<close>

theorem runWithConcurrency_nonpositive_limit:
  assumes "limit \<le> 0" and "set tasks \<subseteq> {Fulfilled}" and "exec tasks limit evs = Some s"
  shows "distinct (started (log s))
       \<and> (\<forall>k j. k < length (log s) \<and> log s ! k = Started j
            \<longrightarrow> in_flight (take k (log s)) = [])
       \<and> length (in_flight (take k (log s))) \<le> 1
       \<and> (\<forall>e. ctl s \<noteq> Done (Rejected e))
       \<and> (ctl s = Done Fulfilled
            \<longrightarrow> started (log s) = [0 ..< length tasks]
              \<and> distinct (finished (log s))
              \<and> set (finished (log s)) = {..< length tasks})
       \<and> (quiescent s \<longrightarrow> ctl s = Done Fulfilled)
       \<and> (\<exists>evs' s'. exec tasks limit (evs @ evs') = Some s' \<and> ctl s' = Done Fulfilled)
       \<and> length evs \<le> 2 * length tasks"
proof -
  note l = exec_length [OF assms(3)]
  note i = exec_inv [OF assms(3)]
  then have adm: "adm_ok limit (log s)" by (simp add: runner_inv_def)
  from assms(1) have m: "max 1 limit = 1" by simp
  have a: "distinct (started (log s))" by (rule started_distinct [OF i])
  have b: "\<forall>k j. k < length (log s) \<and> log s ! k = Started j
            \<longrightarrow> in_flight (take k (log s)) = []"
  proof (intro allI impI)
    fix k j
    assume "k < length (log s) \<and> log s ! k = Started j"
    then have "k < length (log s)" "log s ! k = Started j" by simp_all
    from start_free_slot [OF adm this] m show "in_flight (take k (log s)) = []" by simp
  qed
  have c: "length (in_flight (take k (log s))) \<le> 1"
    using in_flight_take_bound [OF adm, of k] m by simp
  have d: "\<forall>e. ctl s \<noteq> Done (Rejected e)"
    using no_reject [OF i assms(2)] by simp
  have e: "ctl s = Done Fulfilled
            \<longrightarrow> started (log s) = [0 ..< length tasks]
              \<and> distinct (finished (log s))
              \<and> set (finished (log s)) = {..< length tasks}"
    using resolved_all_done [OF i] by simp
  have f: "quiescent s \<longrightarrow> ctl s = Done Fulfilled"
    using quiescent_resolved [OF i _ assms(2)] by simp
  note g = can_resolve [OF assms(3,2)]
  show ?thesis by (intro conjI a b c d e f g l)
qed

theorem runWithConcurrency_nonpositive_limit_witness:
  "(0::int) \<le> 0
   \<and> set [Fulfilled, Fulfilled :: unit settled] \<subseteq> {Fulfilled}
   \<and> exec [Fulfilled, Fulfilled :: unit settled] 0 [Settle 0, Resume, Settle 1, Resume] =
       Some \<lparr>todo = [], executing = [],
              log = [Started 0, Finished 0 Fulfilled, Started 1, Finished 1 Fulfilled],
              ctl = Done Fulfilled\<rparr>
   \<and> in_flight [Started 0, Finished 0 (Fulfilled :: unit settled)] = []
   \<and> set (finished [Started 0, Finished 0 (Fulfilled :: unit settled), Started 1,
                     Finished 1 Fulfilled]) = {..< 2}"
proof -
  let ?t = "[Fulfilled, Fulfilled :: unit settled]"
  let ?l = "[Started 0, Finished 0 (Fulfilled :: unit settled), Started 1, Finished 1 Fulfilled]"
  let ?s = "\<lparr>todo = [], executing = [], log = ?l, ctl = Done Fulfilled\<rparr>"
  have h: "(0::int) \<le> 0" by simp
  have ft: "set ?t \<subseteq> {Fulfilled}" by simp
  have e: "exec ?t 0 [Settle 0, Resume, Settle 1, Resume] = Some ?s" by code_simp
  note t = runWithConcurrency_nonpositive_limit [OF h ft e, of 0]
  have "in_flight (take 2 (log ?s)) = []"
    by (rule t [THEN conjunct2, THEN conjunct1, rule_format, of 2 1]) simp
  then have a: "in_flight [Started 0, Finished 0 (Fulfilled :: unit settled)] = []"
    by simp
  have "set (finished (log ?s)) = {..< length ?t}"
    by (rule t [THEN conjunct2, THEN conjunct2, THEN conjunct2, THEN conjunct2, THEN conjunct1,
          rule_format, THEN conjunct2, THEN conjunct2]) simp
  then have b: "set (finished ?l) = {..< 2}" by (simp add: numeral_2_eq_2)
  show ?thesis by (intro conjI h ft e a b)
qed

end
